theory Spec2Isabelle
  imports Complex_Main
begin

unbundle bit_operations_syntax

section \<open>Data model (src/types.ts)\<close>

text \<open>
  JavaScript numbers are modelled as exact reals: rounding, NaN, infinities and the sign of
  zero are outside the model. Array lengths and loop counters are natural numbers.
\<close>

record Complex =
  re :: real
  im :: real

record FrequencyComponent =
  frequency :: nat
  amplitude :: real
  phase :: real
  signal :: "real list"

text \<open>
  A JavaScript array of objects may have holes (\<^verbatim>\<open>new Array(n)\<close> creates n of them) and
  reading past its end gives \<^verbatim>\<open>undefined\<close>. An array of \<^verbatim>\<open>Complex\<close> is therefore a list of
  optional values, \<open>None\<close> being a hole; a well-typed \<^verbatim>\<open>Complex[]\<close> without holes is
  \<open>map Some cs\<close>.
\<close>

type_synonym ComplexArray = "Complex option list"

definition number_at :: "real list \<Rightarrow> nat \<Rightarrow> real option" where
  \<comment> \<open>\<^verbatim>\<open>input[i]\<close> on a \<^verbatim>\<open>number[]\<close>: \<^verbatim>\<open>undefined\<close> past the end.\<close>
  "number_at input i = (if i < length input then Some (input ! i) else None)"

definition bin_at :: "ComplexArray \<Rightarrow> nat \<Rightarrow> Complex option" where
  \<comment> \<open>\<^verbatim>\<open>a[i]\<close> on a \<^verbatim>\<open>Complex[]\<close>: \<^verbatim>\<open>undefined\<close> at a hole and past the end.\<close>
  "bin_at a i = (if i < length a then a ! i else None)"

definition set_bin :: "ComplexArray \<Rightarrow> nat \<Rightarrow> Complex \<Rightarrow> ComplexArray" where
  \<comment> \<open>\<^verbatim>\<open>a[i] = v\<close>: past the end JavaScript extends the array, leaving holes.\<close>
  "set_bin a i v =
     (if i < length a then a[i := Some v]
      else a @ replicate (i - length a) None @ [Some v])"

definition number_or :: "real option \<Rightarrow> real \<Rightarrow> real" where
  \<comment> \<open>\<^verbatim>\<open>x || d\<close> on a number: \<^verbatim>\<open>undefined\<close> and 0 are falsy.\<close>
  "number_or v d = (case v of None \<Rightarrow> d | Some x \<Rightarrow> if x = 0 then d else x)"

definition bin_or :: "Complex option \<Rightarrow> Complex \<Rightarrow> Complex" where
  \<comment> \<open>\<^verbatim>\<open>c || d\<close> on an object: only \<^verbatim>\<open>undefined\<close> is falsy.\<close>
  "bin_or v d = (case v of None \<Rightarrow> d | Some c \<Rightarrow> c)"

section \<open>The direct transform (src/services/fft.ts, dft)\<close>

definition dft_step :: "real list \<Rightarrow> nat \<Rightarrow> nat \<Rightarrow> nat \<Rightarrow> real \<times> real \<Rightarrow> real \<times> real" where
  \<comment> \<open>One pass of the inner loop: the accumulators \<^verbatim>\<open>re\<close> and \<^verbatim>\<open>im\<close> after sample t.\<close>
  "dft_step input n k t acc =
     (let angle = (2 * pi * real k * real t) / real n
      in (fst acc + input ! t * cos angle, snd acc - input ! t * sin angle))"

definition dft_bin :: "real list \<Rightarrow> nat \<Rightarrow> Complex" where
  "dft_bin input k =
     (let n = length input;
          acc = fold (dft_step input n k) [0..<n] (0, 0)
      in \<lparr>re = fst acc, im = snd acc\<rparr>)"

definition dft :: "real list \<Rightarrow> Complex list" where
  "dft input = map (dft_bin input) [0..<length input]"

section \<open>The radix-2 transform (src/services/fft.ts, fft)\<close>

definition split_step :: "real list \<Rightarrow> nat \<Rightarrow> real list \<times> real list \<Rightarrow> real list \<times> real list" where
  \<comment> \<open>One pass of the parity loop: push \<^verbatim>\<open>input[i]\<close> on \<^verbatim>\<open>evenInput\<close> or on \<^verbatim>\<open>oddInput\<close>.\<close>
  "split_step input i acc =
     (if i mod 2 = 0 then (fst acc @ [input ! i], snd acc)
      else (fst acc, snd acc @ [input ! i]))"

definition split_loop :: "real list \<Rightarrow> nat \<Rightarrow> real list \<times> real list" where
  "split_loop input m = fold (split_step input) [0..<m] ([], [])"

definition evenInput :: "real list \<Rightarrow> real list" where
  "evenInput input = fst (split_loop input (length input))"

definition oddInput :: "real list \<Rightarrow> real list" where
  "oddInput input = snd (split_loop input (length input))"

definition butterfly :: "nat \<Rightarrow> ComplexArray \<Rightarrow> ComplexArray \<Rightarrow> nat \<Rightarrow> ComplexArray \<Rightarrow> ComplexArray" where
  \<comment> \<open>One pass of the combine loop, writing \<^verbatim>\<open>results[k]\<close> and \<^verbatim>\<open>results[k + n / 2]\<close>.
      The loop runs only for even n (see \<open>radix2_length_even\<close>), where \<^verbatim>\<open>n / 2\<close> is \<open>n div 2\<close>.\<close>
  "butterfly n even' odd' k results =
     (let angle = (- 2 * pi * real k) / real n;
          w = \<lparr>re = cos angle, im = sin angle\<rparr>;
          oddK = bin_or (bin_at odd' k) \<lparr>re = 0, im = 0\<rparr>;
          evenK = bin_or (bin_at even' k) \<lparr>re = 0, im = 0\<rparr>;
          oddW = \<lparr>re = re oddK * re w - im oddK * im w,
                  im = re oddK * im w + im oddK * re w\<rparr>;
          results1 = set_bin results k \<lparr>re = re evenK + re oddW, im = im evenK + im oddW\<rparr>
      in set_bin results1 (k + n div 2) \<lparr>re = re evenK - re oddW, im = im evenK - im oddW\<rparr>)"

lemma split_loop_Suc:
  "split_loop input (Suc m) = split_step input m (split_loop input m)"
  by (simp add: split_loop_def)

lemma split_loop_eq:
  "split_loop input m =
     (map (\<lambda>j. input ! (2 * j)) [0..<(m + 1) div 2],
      map (\<lambda>j. input ! (2 * j + 1)) [0..<m div 2])"
proof (induction m)
  case 0
  show ?case by (simp add: split_loop_def)
next
  case (Suc m)
  show ?case
  proof (cases "even m")
    case True
    then obtain h where h: "m = 2 * h" by (auto elim: evenE)
    show ?thesis
      unfolding split_loop_Suc Suc.IH
      by (simp add: split_step_def h)
  next
    case False
    then obtain h where h: "m = 2 * h + 1" by (auto elim: oddE)
    show ?thesis
      unfolding split_loop_Suc Suc.IH
      by (simp add: split_step_def h)
  qed
qed

lemma evenInput_eq:
  "evenInput input = map (\<lambda>j. input ! (2 * j)) [0..<(length input + 1) div 2]"
  by (simp add: evenInput_def split_loop_eq)

lemma oddInput_eq:
  "oddInput input = map (\<lambda>j. input ! (2 * j + 1)) [0..<length input div 2]"
  by (simp add: oddInput_def split_loop_eq)

lemma length_evenInput: "length (evenInput input) = (length input + 1) div 2"
  by (simp add: evenInput_eq)

lemma length_oddInput: "length (oddInput input) = length input div 2"
  by (simp add: oddInput_eq)

text \<open>
  \<^verbatim>\<open>n & (n - 1)\<close> is taken on 32-bit integers. An array is shorter than 2^32, and below
  2^32 the 32-bit conjunction is zero exactly when the conjunction of the two naturals is,
  so the test is written on naturals.
\<close>

function fft :: "real list \<Rightarrow> ComplexArray" where
  "fft input =
     (let n = length input in
      if n \<le> 1 then [Some \<lparr>re = number_or (number_at input 0) 0, im = 0\<rparr>]
      else if (n AND (n - 1)) \<noteq> 0 then map Some (dft input)
      else
        let even' = fft (evenInput input);
            odd' = fft (oddInput input)
        in fold (butterfly n even' odd') [0..<n div 2] (replicate n None))"
  by pat_completeness auto
termination
  by (relation "measure length") (auto simp: length_evenInput length_oddInput)

declare fft.simps [simp del]

section \<open>Component extraction (src/services/fft.ts, getFrequencyComponents)\<close>

definition atan2 :: "real \<Rightarrow> real \<Rightarrow> real" where
  \<comment> \<open>\<^verbatim>\<open>Math.atan2(y, x)\<close> on reals: the angle of the point (x, y), in (-pi, pi], and 0 at the
      origin.\<close>
  "atan2 y x =
     (if 0 < x then arctan (y / x)
      else if x < 0 then (if 0 \<le> y then arctan (y / x) + pi else arctan (y / x) - pi)
      else if 0 < y then pi / 2
      else if y < 0 then - (pi / 2)
      else 0)"

definition component :: "nat \<Rightarrow> nat \<Rightarrow> Complex \<Rightarrow> FrequencyComponent" where
  \<comment> \<open>The record the loop body pushes for bin k; \<^verbatim>\<open>new Array(actualLen).fill(0).map((_, i) => ...)\<close>
      is a map over the indices below \<^verbatim>\<open>actualLen\<close>.\<close>
  "component actualLen k bin =
     (let re' = re bin;
          im' = im bin;
          amplitude' = (sqrt (re' * re' + im' * im') * 2) / real actualLen;
          phase' = atan2 im' re';
          signal' = map (\<lambda>i. amplitude' * cos ((2 * pi * real k * real i) / real actualLen + phase'))
                      [0..<actualLen]
      in \<lparr>frequency = k, amplitude = amplitude', phase = phase', signal = signal'\<rparr>)"

definition component_step :: "ComplexArray \<Rightarrow> nat \<Rightarrow> nat \<Rightarrow> FrequencyComponent list \<Rightarrow> FrequencyComponent list" where
  \<comment> \<open>One pass of the loop: \<^verbatim>\<open>if (!bin) continue\<close>, else push the record.\<close>
  "component_step fftData actualLen k components =
     (case bin_at fftData k of
        None \<Rightarrow> components
      | Some bin \<Rightarrow> components @ [component actualLen k bin])"

definition getFrequencyComponents :: "ComplexArray \<Rightarrow> int \<Rightarrow> FrequencyComponent list" where
  \<comment> \<open>The second parameter is the source's \<^verbatim>\<open>n\<close>, which the body never reads. The test
      \<^verbatim>\<open>!fftData\<close> is for a null array, which the parameter's type excludes.\<close>
  "getFrequencyComponents fftData n =
     (if length fftData = 0 then []
      else
        let actualLen = length fftData;
            half = actualLen div 2
        in fold (component_step fftData actualLen) [1..<half] [])"

section \<open>Relating the transforms to the complex exponential sum\<close>

text \<open>
  The proofs compare bins through the library's complex numbers: \<open>to_complex\<close> reads a
  \<open>Complex\<close> record as a \<open>complex\<close>, and \<open>dft_sum\<close> is the transform with the negative
  exponent, \<open>\<Sum>t<N. x\<^sub>t * cis (- 2 pi k t / N)\<close>. \<open>butterfly_low\<close> and \<open>butterfly_high\<close> name the
  two values one pass of the combine loop writes.
\<close>

definition to_complex :: "Complex \<Rightarrow> complex" where
  "to_complex c = Complex.Complex (re c) (im c)"

definition dft_sum :: "real list \<Rightarrow> nat \<Rightarrow> complex" where
  "dft_sum input k =
     (\<Sum>t<length input. of_real (input ! t) * cis (- (2 * pi * real k * real t / real (length input))))"

definition conjugate :: "Complex \<Rightarrow> Complex" where
  "conjugate c = \<lparr>re = re c, im = - im c\<rparr>"

lemma to_complex_inject: "to_complex a = to_complex b \<Longrightarrow> a = b"
  by (cases a, cases b) (simp add: to_complex_def)

lemma dft_loop_sum:
  "fold (dft_step input n k) [0..<m] (a, b) =
     (a + (\<Sum>t<m. input ! t * cos (2 * pi * real k * real t / real n)),
      b - (\<Sum>t<m. input ! t * sin (2 * pi * real k * real t / real n)))"
  by (induction m) (simp_all add: dft_step_def Let_def)

lemma dft_bin_sum:
  "dft_bin input k =
     \<lparr>re = (\<Sum>t<length input. input ! t * cos (2 * pi * real k * real t / real (length input))),
      im = - (\<Sum>t<length input. input ! t * sin (2 * pi * real k * real t / real (length input)))\<rparr>"
  by (simp add: dft_bin_def dft_loop_sum Let_def)

lemma to_complex_dft_bin: "to_complex (dft_bin input k) = dft_sum input k"
  by (simp add: dft_bin_sum to_complex_def dft_sum_def complex_eq_iff sum_negf)

lemma dft_sum_periodic: "dft_sum ys (k + length ys) = dft_sum ys k"
proof (cases "ys = []")
  case True
  then show ?thesis by (simp add: dft_sum_def)
next
  case False
  then have pos: "real (length ys) \<noteq> 0" by simp
  have "cis (- (2 * pi * real (k + length ys) * real t / real (length ys)))
      = cis (- (2 * pi * real k * real t / real (length ys)))" for t
  proof -
    have "- (2 * pi * real (k + length ys) * real t / real (length ys))
        = - (2 * pi * real k * real t / real (length ys)) + - (2 * pi * real t)"
      using pos by (simp add: field_simps)
    moreover have "cis (- (2 * pi * real t)) = 1"
      using cis_multiple_2pi [of "- real t"] by simp
    ultimately show ?thesis
      using cis_mult [of "- (2 * pi * real k * real t / real (length ys))" "- (2 * pi * real t)"]
      by simp
  qed
  then show ?thesis by (simp add: dft_sum_def)
qed

lemma sum_by_parity:
  fixes F :: "nat \<Rightarrow> 'a::comm_monoid_add"
  shows "(\<Sum>t<2 * h. F t) = (\<Sum>j<h. F (2 * j)) + (\<Sum>j<h. F (2 * j + 1))"
  by (induction h) (simp_all add: ac_simps)

lemma dft_sum_split:
  assumes len: "length input = 2 * h" and h: "0 < h"
  shows "dft_sum input k =
           dft_sum (evenInput input) k
           + cis (- (2 * pi * real k / real (2 * h))) * dft_sum (oddInput input) k"
proof -
  let ?F = "\<lambda>t. of_real (input ! t) * cis (- (2 * pi * real k * real t / real (2 * h)))"
  have le: "length (evenInput input) = h" and lo: "length (oddInput input) = h"
    using len by (simp_all add: length_evenInput length_oddInput)
  have "dft_sum input k = (\<Sum>t<2 * h. ?F t)"
    by (simp add: dft_sum_def len)
  also have "\<dots> = (\<Sum>j<h. ?F (2 * j)) + (\<Sum>j<h. ?F (2 * j + 1))"
    by (rule sum_by_parity)
  also have "(\<Sum>j<h. ?F (2 * j)) = dft_sum (evenInput input) k"
    unfolding dft_sum_def le
  proof (rule sum.cong [OF refl])
    fix j assume "j \<in> {..<h}"
    then have j: "j < h" by simp
    have e: "evenInput input ! j = input ! (2 * j)"
      using j len by (simp add: evenInput_eq)
    have a: "- (2 * pi * real k * real (2 * j) / real (2 * h))
        = - (2 * pi * real k * real j / real h)"
      using h by (simp add: field_simps)
    show "?F (2 * j) =
        of_real (evenInput input ! j) * cis (- (2 * pi * real k * real j / real h))"
      by (simp only: e a)
  qed
  also have "(\<Sum>j<h. ?F (2 * j + 1))
      = cis (- (2 * pi * real k / real (2 * h))) * dft_sum (oddInput input) k"
    unfolding dft_sum_def lo sum_distrib_left
  proof (rule sum.cong [OF refl])
    fix j assume "j \<in> {..<h}"
    then have j: "j < h" by simp
    have "oddInput input ! j = input ! (2 * j + 1)"
      using j len by (simp add: oddInput_eq)
    moreover have "- (2 * pi * real k * real (2 * j + 1) / real (2 * h))
        = - (2 * pi * real k / real (2 * h)) + - (2 * pi * real k * real j / real h)"
      using h by (simp add: field_simps)
    ultimately show "?F (2 * j + 1) =
        cis (- (2 * pi * real k / real (2 * h)))
        * (of_real (oddInput input ! j) * cis (- (2 * pi * real k * real j / real h)))"
      using cis_mult [of "- (2 * pi * real k / real (2 * h))" "- (2 * pi * real k * real j / real h)"]
      by simp
  qed
  finally show ?thesis .
qed

lemma dft_sum_split_upper:
  assumes len: "length input = 2 * h" and h: "0 < h"
  shows "dft_sum input (k + h) =
           dft_sum (evenInput input) k
           - cis (- (2 * pi * real k / real (2 * h))) * dft_sum (oddInput input) k"
proof -
  have le: "length (evenInput input) = h" and lo: "length (oddInput input) = h"
    using len by (simp_all add: length_evenInput length_oddInput)
  have a: "- (2 * pi * real (k + h) / real (2 * h)) = - (2 * pi * real k / real (2 * h)) + - pi"
    using h by (simp add: field_simps)
  have m: "cis (- pi) = - 1"
    by (simp add: complex_eq_iff)
  have "cis (- (2 * pi * real (k + h) / real (2 * h)))
      = cis (- (2 * pi * real k / real (2 * h))) * cis (- pi)"
    by (simp only: a cis_mult)
  then have "cis (- (2 * pi * real (k + h) / real (2 * h)))
      = - cis (- (2 * pi * real k / real (2 * h)))"
    by (simp only: m mult_minus_right mult_1_right)
  moreover have "dft_sum (evenInput input) (k + h) = dft_sum (evenInput input) k"
    using dft_sum_periodic [of "evenInput input" k] by (simp add: le)
  moreover have "dft_sum (oddInput input) (k + h) = dft_sum (oddInput input) k"
    using dft_sum_periodic [of "oddInput input" k] by (simp add: lo)
  ultimately show ?thesis
    using dft_sum_split [OF len h, of "k + h"] by simp
qed


definition butterfly_low :: "nat \<Rightarrow> ComplexArray \<Rightarrow> ComplexArray \<Rightarrow> nat \<Rightarrow> Complex" where
  "butterfly_low n even' odd' k =
     (let angle = (- 2 * pi * real k) / real n;
          w = \<lparr>re = cos angle, im = sin angle\<rparr>;
          oddK = bin_or (bin_at odd' k) \<lparr>re = 0, im = 0\<rparr>;
          evenK = bin_or (bin_at even' k) \<lparr>re = 0, im = 0\<rparr>;
          oddW = \<lparr>re = re oddK * re w - im oddK * im w,
                  im = re oddK * im w + im oddK * re w\<rparr>
      in \<lparr>re = re evenK + re oddW, im = im evenK + im oddW\<rparr>)"

definition butterfly_high :: "nat \<Rightarrow> ComplexArray \<Rightarrow> ComplexArray \<Rightarrow> nat \<Rightarrow> Complex" where
  "butterfly_high n even' odd' k =
     (let angle = (- 2 * pi * real k) / real n;
          w = \<lparr>re = cos angle, im = sin angle\<rparr>;
          oddK = bin_or (bin_at odd' k) \<lparr>re = 0, im = 0\<rparr>;
          evenK = bin_or (bin_at even' k) \<lparr>re = 0, im = 0\<rparr>;
          oddW = \<lparr>re = re oddK * re w - im oddK * im w,
                  im = re oddK * im w + im oddK * re w\<rparr>
      in \<lparr>re = re evenK - re oddW, im = im evenK - im oddW\<rparr>)"

lemma butterfly_writes:
  "butterfly n even' odd' k results =
     set_bin (set_bin results k (butterfly_low n even' odd' k)) (k + n div 2)
       (butterfly_high n even' odd' k)"
  by (simp add: butterfly_def butterfly_low_def butterfly_high_def Let_def)

lemma butterfly_loop_Suc:
  "fold (butterfly n e d) [0..<Suc m] r0 = butterfly n e d m (fold (butterfly n e d) [0..<m] r0)"
  by simp

lemma butterfly_loop_nth:
  assumes "m \<le> h" and "j < 2 * h"
  shows "length (fold (butterfly (2 * h) e d) [0..<m] (replicate (2 * h) None)) = 2 * h
       \<and> fold (butterfly (2 * h) e d) [0..<m] (replicate (2 * h) None) ! j =
           (if j < m then Some (butterfly_low (2 * h) e d j)
            else if h \<le> j \<and> j < h + m then Some (butterfly_high (2 * h) e d (j - h))
            else None)"
  using assms
proof (induction m)
  case 0
  then show ?case by simp
next
  case (Suc m)
  define r where "r = fold (butterfly (2 * h) e d) [0..<m] (replicate (2 * h) None)"
  from Suc have len: "length r = 2 * h"
    and nth: "r ! j =
           (if j < m then Some (butterfly_low (2 * h) e d j)
            else if h \<le> j \<and> j < h + m then Some (butterfly_high (2 * h) e d (j - h))
            else None)"
    by (simp_all add: r_def)
  from Suc.prems have m: "m < h" by simp
  have step: "fold (butterfly (2 * h) e d) [0..<Suc m] (replicate (2 * h) None)
      = (r[m := Some (butterfly_low (2 * h) e d m)])[m + h := Some (butterfly_high (2 * h) e d m)]"
    unfolding butterfly_loop_Suc r_def [symmetric]
    using m len by (simp add: butterfly_writes set_bin_def)
  show ?case
    unfolding step
    using m Suc.prems(2) len nth
    by (auto simp: nth_list_update)
qed

lemma butterfly_loop_eq:
  "fold (butterfly (2 * h) e d) [0..<h] (replicate (2 * h) None) =
     map Some (map (butterfly_low (2 * h) e d) [0..<h] @ map (butterfly_high (2 * h) e d) [0..<h])"
proof (rule nth_equalityI)
  show "length (fold (butterfly (2 * h) e d) [0..<h] (replicate (2 * h) None)) =
        length (map Some (map (butterfly_low (2 * h) e d) [0..<h] @ map (butterfly_high (2 * h) e d) [0..<h]))"
  proof (cases h)
    case 0
    then show ?thesis by simp
  next
    case (Suc h')
    then show ?thesis using butterfly_loop_nth [of h h 0 e d] by simp
  qed
next
  fix j
  assume "j < length (fold (butterfly (2 * h) e d) [0..<h] (replicate (2 * h) None))"
  then have j: "j < 2 * h"
    using butterfly_loop_nth [of h h 0 e d] by (cases h) auto
  show "fold (butterfly (2 * h) e d) [0..<h] (replicate (2 * h) None) ! j =
        map Some (map (butterfly_low (2 * h) e d) [0..<h] @ map (butterfly_high (2 * h) e d) [0..<h]) ! j"
    using butterfly_loop_nth [of h h j e d] j
    by (auto simp: nth_append)
qed

lemma radix2_length_even:
  fixes n :: nat
  assumes "2 \<le> n" and "n AND (n - 1) = 0"
  shows "even n"
proof (rule ccontr)
  assume "odd n"
  then obtain m where n: "n = 2 * m + 1" by (auto elim: oddE)
  with assms(1) have "1 \<le> m" by simp
  have "n AND (n - 1) = 2 * m"
    unfolding n by (subst and_nat_rec) simp
  with assms(2) \<open>1 \<le> m\<close> show False by simp
qed

lemma to_complex_butterfly_low:
  assumes "bin_at e k = Some a" and "bin_at d k = Some b"
  shows "to_complex (butterfly_low n e d k)
       = to_complex a + cis (- (2 * pi * real k / real n)) * to_complex b"
  using assms
  by (simp add: butterfly_low_def bin_or_def to_complex_def Let_def complex_eq_iff)

lemma to_complex_butterfly_high:
  assumes "bin_at e k = Some a" and "bin_at d k = Some b"
  shows "to_complex (butterfly_high n e d k)
       = to_complex a - cis (- (2 * pi * real k / real n)) * to_complex b"
  using assms
  by (simp add: butterfly_high_def bin_or_def to_complex_def Let_def complex_eq_iff)

lemma fft_eq_dft: "input \<noteq> [] \<Longrightarrow> fft input = map Some (dft input)"
proof (induction input rule: fft.induct)
  case (1 input)
  let ?n = "length input"
  consider (one) "?n = 1" | (direct) "2 \<le> ?n" "?n AND (?n - 1) \<noteq> 0"
    | (radix) "2 \<le> ?n" "?n AND (?n - 1) = 0"
  proof -
    from "1.prems" have "?n \<noteq> 0" by simp
    then have "?n = 1 \<or> 2 \<le> ?n" by linarith
    then show ?thesis using that by blast
  qed
  then show ?case
  proof cases
    case one
    then obtain x where x: "input = [x]"
      by (cases input) auto
    show ?thesis
      by (simp add: x fft.simps dft_def dft_bin_sum number_or_def number_at_def)
  next
    case direct
    then show ?thesis by (simp add: fft.simps)
  next
    case radix
    then have "even ?n" by (rule radix2_length_even)
    then obtain h where h: "?n = 2 * h" by (auto elim: evenE)
    with radix(1) have hpos: "0 < h" by simp
    have le: "length (evenInput input) = h" and lo: "length (oddInput input) = h"
      using h by (simp_all add: length_evenInput length_oddInput)
    have ne: "evenInput input \<noteq> []" and no: "oddInput input \<noteq> []"
      using le lo hpos by auto
    have cond: "\<not> ?n \<le> 1" "\<not> (?n AND (?n - 1)) \<noteq> 0"
      using radix by simp_all
    have E: "fft (evenInput input) = map Some (dft (evenInput input))"
      using "1.IH"(1) [OF refl cond ne] .
    have O: "fft (oddInput input) = map Some (dft (oddInput input))"
      using "1.IH"(2) [OF refl cond refl no] .
    have unfold: "fft input =
        fold (butterfly (2 * h) (fft (evenInput input)) (fft (oddInput input))) [0..<h]
          (replicate (2 * h) None)"
      using cond h by (subst fft.simps) (simp add: Let_def)
    have low: "butterfly_low (2 * h) (fft (evenInput input)) (fft (oddInput input)) k
        = dft_bin input k" if k: "k < h" for k
    proof (rule to_complex_inject)
      have "to_complex (butterfly_low (2 * h) (fft (evenInput input)) (fft (oddInput input)) k)
          = to_complex (dft_bin (evenInput input) k)
            + cis (- (2 * pi * real k / real (2 * h))) * to_complex (dft_bin (oddInput input) k)"
        by (rule to_complex_butterfly_low)
           (simp_all add: E O bin_at_def dft_def le lo k)
      then show "to_complex (butterfly_low (2 * h) (fft (evenInput input)) (fft (oddInput input)) k)
          = to_complex (dft_bin input k)"
        by (simp only: to_complex_dft_bin dft_sum_split [OF h hpos])
    qed
    have high: "butterfly_high (2 * h) (fft (evenInput input)) (fft (oddInput input)) k
        = dft_bin input (k + h)" if k: "k < h" for k
    proof (rule to_complex_inject)
      have "to_complex (butterfly_high (2 * h) (fft (evenInput input)) (fft (oddInput input)) k)
          = to_complex (dft_bin (evenInput input) k)
            - cis (- (2 * pi * real k / real (2 * h))) * to_complex (dft_bin (oddInput input) k)"
        by (rule to_complex_butterfly_high)
           (simp_all add: E O bin_at_def dft_def le lo k)
      then show "to_complex (butterfly_high (2 * h) (fft (evenInput input)) (fft (oddInput input)) k)
          = to_complex (dft_bin input (k + h))"
        by (simp only: to_complex_dft_bin dft_sum_split_upper [OF h hpos])
    qed
    have "map (butterfly_low (2 * h) (fft (evenInput input)) (fft (oddInput input))) [0..<h]
          @ map (butterfly_high (2 * h) (fft (evenInput input)) (fft (oddInput input))) [0..<h]
        = dft input"
    proof (rule nth_equalityI)
      show "length (map (butterfly_low (2 * h) (fft (evenInput input)) (fft (oddInput input))) [0..<h]
          @ map (butterfly_high (2 * h) (fft (evenInput input)) (fft (oddInput input))) [0..<h])
          = length (dft input)"
        by (simp add: dft_def h)
    next
      fix j
      assume "j < length (map (butterfly_low (2 * h) (fft (evenInput input)) (fft (oddInput input))) [0..<h]
          @ map (butterfly_high (2 * h) (fft (evenInput input)) (fft (oddInput input))) [0..<h])"
      then have j: "j < 2 * h" by simp
      show "(map (butterfly_low (2 * h) (fft (evenInput input)) (fft (oddInput input))) [0..<h]
          @ map (butterfly_high (2 * h) (fft (evenInput input)) (fft (oddInput input))) [0..<h]) ! j
          = dft input ! j"
      proof (cases "j < h")
        case True
        then show ?thesis using j by (simp add: nth_append dft_def h low)
      next
        case False
        then have "j - h < h" "j - h + h = j" using j by simp_all
        then show ?thesis using j False high [of "j - h"]
          by (simp add: nth_append dft_def h)
      qed
    qed
    then show ?thesis
      by (simp only: unfold butterfly_loop_eq)
  qed
qed

lemma length_fft: "input \<noteq> [] \<Longrightarrow> length (fft input) = length input"
  by (simp add: fft_eq_dft dft_def)

lemma power_of_two_radix2:
  fixes n :: nat
  assumes "n = 2 ^ m"
  shows "n AND (n - 1) = 0"
proof -
  have "(2 ^ m - 1 :: nat) = mask m" by (simp add: mask_eq_exp_minus_1)
  then have "n AND (n - 1) = mask m AND 2 ^ m"
    by (simp add: assms and.commute)
  also have "\<dots> = 0"
    by (simp add: and_exp_eq_0_iff_not_bit bit_mask_iff)
  finally show ?thesis .
qed

lemma combine_reads_defined:
  assumes "2 \<le> length input" and "length input AND (length input - 1) = 0"
    and "k < length input div 2"
  shows "length (fft (evenInput input)) = length input div 2
       \<and> length (fft (oddInput input)) = length input div 2
       \<and> bin_at (fft (evenInput input)) k \<noteq> None
       \<and> bin_at (fft (oddInput input)) k \<noteq> None"
proof -
  from assms(1,2) have "even (length input)" by (rule radix2_length_even)
  then have le: "length (evenInput input) = length input div 2"
    and lo: "length (oddInput input) = length input div 2"
    by (auto simp: length_evenInput length_oddInput elim: evenE)
  from assms(3) le lo have ne: "evenInput input \<noteq> []" and no: "oddInput input \<noteq> []"
    by auto
  show ?thesis
    using assms(3) le lo
    by (simp add: fft_eq_dft [OF ne] fft_eq_dft [OF no] bin_at_def dft_def)
qed

section \<open>Mirror bins of the direct transform\<close>

lemma cos_whole_turns: "cos (x + real t * (2 * pi)) = cos x"
proof (induction t)
  case 0
  show ?case by simp
next
  case (Suc t)
  have "x + real (Suc t) * (2 * pi) = (x + real t * (2 * pi)) + 2 * pi"
    by (simp add: algebra_simps)
  with Suc show ?case by (simp only: cos_periodic)
qed

lemma sin_whole_turns: "sin (x + real t * (2 * pi)) = sin x"
proof (induction t)
  case 0
  show ?case by simp
next
  case (Suc t)
  have "x + real (Suc t) * (2 * pi) = (x + real t * (2 * pi)) + 2 * pi"
    by (simp add: algebra_simps)
  with Suc show ?case by (simp only: sin_periodic)
qed

lemma mirror_angle:
  assumes "k < n"
  shows "2 * pi * real (n - k) * real t / real n
       = - (2 * pi * real k * real t / real n) + real t * (2 * pi)"
proof -
  from assms have "real n \<noteq> 0" and "real (n - k) = real n - real k"
    by (simp_all add: of_nat_diff)
  then show ?thesis by (simp add: field_simps)
qed

lemma cos_mirror:
  assumes "k < n"
  shows "cos (2 * pi * real (n - k) * real t / real n) = cos (2 * pi * real k * real t / real n)"
  by (simp only: mirror_angle [OF assms] cos_whole_turns cos_minus)

lemma sin_mirror:
  assumes "k < n"
  shows "sin (2 * pi * real (n - k) * real t / real n) = - sin (2 * pi * real k * real t / real n)"
  by (simp only: mirror_angle [OF assms] sin_whole_turns sin_minus)

lemma dft_bin_mirror:
  assumes "k < length input"
  shows "dft_bin input (length input - k) = conjugate (dft_bin input k)"
  by (simp only: dft_bin_sum conjugate_def cos_mirror [OF assms] sin_mirror [OF assms])
     (simp add: sum_negf)

lemma quarter_turns:
  "cos (pi * 3 / 2) = 0" "sin (pi * 3 / 2) = - 1" "cos (3 * pi / 2) = 0" "sin (3 * pi / 2) = - 1"
  using cos_3over2_pi sin_3over2_pi by (simp_all add: mult.commute)

section \<open>The extraction loop as a filter over the bins\<close>

lemma component_loop:
  "fold (component_step fftData actualLen) ks acc =
     acc @ List.map_filter (\<lambda>k. map_option (component actualLen k) (bin_at fftData k)) ks"
  by (induction ks arbitrary: acc)
     (simp_all add: component_step_def List.map_filter_simps split: option.split)

lemma getFrequencyComponents_eq:
  "getFrequencyComponents fftData n =
     List.map_filter (\<lambda>k. map_option (component (length fftData) k) (bin_at fftData k))
       [1..<length fftData div 2]"
  by (simp add: getFrequencyComponents_def component_loop Let_def List.map_filter_simps)

lemma getFrequencyComponents_member:
  assumes "r \<in> set (getFrequencyComponents fftData n)"
  obtains k bin where "1 \<le> k" "k < length fftData div 2" "bin_at fftData k = Some bin"
    "r = component (length fftData) k bin"
  using assms
  by (auto simp: getFrequencyComponents_eq List.map_filter_def)

lemma getFrequencyComponents_frequencies:
  "map frequency (getFrequencyComponents fftData n) =
     filter (\<lambda>k. bin_at fftData k \<noteq> None) [1..<length fftData div 2]"
proof -
  have "map frequency (List.map_filter (\<lambda>k. map_option (component M k) (bin_at fftData k)) ks)
      = filter (\<lambda>k. bin_at fftData k \<noteq> None) ks" for M ks
    by (induction ks) (auto simp: List.map_filter_simps component_def Let_def)
  then show ?thesis by (simp add: getFrequencyComponents_eq)
qed

lemma getFrequencyComponents_full:
  "getFrequencyComponents (map Some cs) n =
     map (\<lambda>k. component (length cs) k (cs ! k)) [1..<length cs div 2]"
proof -
  have "List.map_filter (\<lambda>k. map_option (component M k) (bin_at (map Some cs) k)) ks
      = map (\<lambda>k. component M k (cs ! k)) ks" if "\<forall>k\<in>set ks. k < length cs" for M ks
    using that by (induction ks) (simp_all add: List.map_filter_simps bin_at_def)
  moreover have "\<forall>k\<in>set [1..<length cs div 2]. k < length cs"
    by auto
  ultimately show ?thesis
    by (simp only: getFrequencyComponents_eq length_map)
qed

lemma getFrequencyComponents_four:
  "getFrequencyComponents [Some b0, Some b1, Some b2, Some b3] n = [component 4 1 b1]"
proof -
  have len: "length [Some b0, Some b1, Some b2, Some b3] = 4"
    by simp
  have bin: "bin_at [Some b0, Some b1, Some b2, Some b3] (Suc 0) = Some b1"
    by (simp add: bin_at_def)
  have "[1..<4 div 2] = [1::nat]"
    by (simp add: upt_rec)
  then show ?thesis
    unfolding getFrequencyComponents_eq len
    by (simp add: List.map_filter_simps bin)
qed

section \<open>Properties of the transform and of the extraction\<close>

text \<open>
  C1. For every sample sequence of length N \<ge> 1 and every k < N, \<open>fft\<close> returns N bins without a hole,
  and bin k is the discrete Fourier transform with the negative exponent: its real part is
  the sum over t < N of sample[t] * cos (2 pi k t / N) and its imaginary part is minus the sum
  of sample[t] * sin (2 pi k t / N). The statement does not depend on the branch \<open>fft\<close> takes:
  the witness evaluates it on the radix-2 branch (length 2) and on the direct branch (length 3).
\<close>

theorem fft_computes_dft:
  assumes "1 \<le> length input" and "k < length input"
  shows "length (fft input) = length input
       \<and> fft input ! k =
           Some \<lparr>re = (\<Sum>t<length input. input ! t * cos (2 * pi * real k * real t / real (length input))),
                 im = - (\<Sum>t<length input. input ! t * sin (2 * pi * real k * real t / real (length input)))\<rparr>"
proof -
  from assms(1) have ne: "input \<noteq> []" by auto
  show ?thesis
    using assms(2) by (simp add: fft_eq_dft [OF ne] dft_def dft_bin_sum)
qed

theorem fft_computes_dft_witness:
  "length (fft [3, 5]) = 2 \<and> fft [3, 5] ! 1 = Some \<lparr>re = - 2, im = 0\<rparr>
   \<and> length (fft [1, 1, 1]) = 3 \<and> fft [1, 1, 1] ! 0 = Some \<lparr>re = 3, im = 0\<rparr>"
  using fft_computes_dft [of "[3, 5]" 1] fft_computes_dft [of "[1, 1, 1]" 0]
  by (simp add: lessThan_nat_numeral)

text \<open>
  C2. The claim is that for every sample count n \<le> 0 \<open>getFrequencyComponents\<close> returns the
  empty sequence, whatever the spectrum. The source's comment above the loop bound says to use
  the smaller of the spectrum's length and n, which for n \<le> 0 gives no pass of the loop; the
  bound is computed from the spectrum's length alone and n is never read. On a spectrum of
  4 bins with n = 0 the code emits the record of bin 1, so the claim does not hold of the code.
\<close>

theorem nonpositive_sampleCount_emits_record:
  "(0::int) \<le> 0
   \<and> getFrequencyComponents
     [Some \<lparr>re = 4, im = 0\<rparr>, Some \<lparr>re = 0, im = 2\<rparr>, Some \<lparr>re = 0, im = 0\<rparr>,
      Some \<lparr>re = 0, im = - 2\<rparr>] 0
     = [\<lparr>frequency = 1, amplitude = 1, phase = pi / 2, signal = [0, - 1, 0, 1]\<rparr>]
   \<and> getFrequencyComponents
     [Some \<lparr>re = 4, im = 0\<rparr>, Some \<lparr>re = 0, im = 2\<rparr>, Some \<lparr>re = 0, im = 0\<rparr>,
      Some \<lparr>re = 0, im = - 2\<rparr>] 0 \<noteq> []"
  by (simp add: getFrequencyComponents_four component_def atan2_def Let_def upt_rec)

text \<open>
  C3 (amended). Every record emitted by \<open>getFrequencyComponents\<close> carries a signal of exactly M
  numbers, M being the length of the spectrum (not the sample count argument), with
  signal[i] = amplitude * cos (2 pi k i / M + phase) for every i < M, where k is the record's
  frequency. The counterexample is a spectrum of 4 bins with sample count 8: the signal has
  4 entries.
\<close>

theorem signal_over_spectrum_length:
  assumes "r \<in> set (getFrequencyComponents fftData n)" and "i < length fftData"
  shows "length (signal r) = length fftData
       \<and> signal r ! i =
           amplitude r * cos (2 * pi * real (frequency r) * real i / real (length fftData) + phase r)"
proof -
  from assms(1) obtain k bin where "r = component (length fftData) k bin"
    by (rule getFrequencyComponents_member)
  then show ?thesis
    using assms(2) by (simp add: component_def Let_def)
qed

theorem signal_over_spectrum_length_witness:
  "length (signal (component 4 1 \<lparr>re = 0, im = 2\<rparr>)) = 4
   \<and> signal (component 4 1 \<lparr>re = 0, im = 2\<rparr>) ! 1 = - 1"
proof -
  have "component 4 1 \<lparr>re = 0, im = 2\<rparr> \<in> set (getFrequencyComponents
          [Some \<lparr>re = 4, im = 0\<rparr>, Some \<lparr>re = 0, im = 2\<rparr>, Some \<lparr>re = 0, im = 0\<rparr>,
           Some \<lparr>re = 0, im = - 2\<rparr>] 8)"
    by (simp add: getFrequencyComponents_four)
  from signal_over_spectrum_length [OF this, of 1] show ?thesis
    by (simp add: component_def atan2_def Let_def)
qed

theorem signal_length_counterexample:
  "getFrequencyComponents
     [Some \<lparr>re = 4, im = 0\<rparr>, Some \<lparr>re = 0, im = 2\<rparr>, Some \<lparr>re = 0, im = 0\<rparr>,
      Some \<lparr>re = 0, im = - 2\<rparr>] 8 \<noteq> []
   \<and> int (length (signal (hd (getFrequencyComponents
     [Some \<lparr>re = 4, im = 0\<rparr>, Some \<lparr>re = 0, im = 2\<rparr>, Some \<lparr>re = 0, im = 0\<rparr>,
      Some \<lparr>re = 0, im = - 2\<rparr>] 8)))) = 4
   \<and> int (length (signal (hd (getFrequencyComponents
     [Some \<lparr>re = 4, im = 0\<rparr>, Some \<lparr>re = 0, im = 2\<rparr>, Some \<lparr>re = 0, im = 0\<rparr>,
      Some \<lparr>re = 0, im = - 2\<rparr>] 8)))) \<noteq> 8"
  by (simp add: getFrequencyComponents_four component_def Let_def)




text \<open>
  C5. For every input whose length is a power of two greater than 1, \<open>fft\<close> takes its radix-2
  branch (neither the degenerate case nor the fallback test applies) and its result is, bin
  for bin, the result of the direct transform \<open>dft\<close>.
\<close>

theorem fft_radix2_agrees_with_dft:
  assumes "length input = 2 ^ m" and "0 < m"
  shows "\<not> length input \<le> 1 \<and> (length input AND (length input - 1)) = 0
       \<and> fft input = map Some (dft input)"
proof -
  have "(2::nat) ^ 1 \<le> 2 ^ m"
    using assms(2) by (intro power_increasing) simp_all
  then have big: "2 \<le> length input" by (simp add: assms(1))
  then have "input \<noteq> []" by auto
  with big power_of_two_radix2 [OF assms(1)] show ?thesis
    by (simp add: fft_eq_dft)
qed

theorem fft_radix2_agrees_with_dft_witness:
  "fft [3, 5] = map Some (dft [3, 5]) \<and> fft [3, 5] = [Some \<lparr>re = 8, im = 0\<rparr>, Some \<lparr>re = - 2, im = 0\<rparr>]"
  using fft_radix2_agrees_with_dft [of "[3, 5]" 1]
  by (simp add: dft_def dft_bin_sum lessThan_nat_numeral)

text \<open>
  C6. For every input of length N \<ge> 1, \<open>fft\<close> returns exactly N bins; for the empty input it
  returns the single bin (0, 0); for a single sample x it returns the single bin (x, 0).
\<close>

theorem fft_length_and_degenerate:
  "(1 \<le> length input \<longrightarrow> length (fft input) = length input)
   \<and> fft [] = [Some \<lparr>re = 0, im = 0\<rparr>]
   \<and> fft [x] = [Some \<lparr>re = x, im = 0\<rparr>]"
proof -
  have "fft [] = [Some \<lparr>re = 0, im = 0\<rparr>]"
    by (simp add: fft.simps number_or_def number_at_def)
  moreover have "fft [x] = [Some \<lparr>re = x, im = 0\<rparr>]"
    by (simp add: fft.simps number_or_def number_at_def)
  moreover have "1 \<le> length input \<longrightarrow> length (fft input) = length input"
    using length_fft [of input] by (cases input) simp_all
  ultimately show ?thesis by simp
qed

theorem fft_length_and_degenerate_witness:
  "length (fft [1, 2, 3]) = 3 \<and> fft [] = [Some \<lparr>re = 0, im = 0\<rparr>] \<and> fft [7] = [Some \<lparr>re = 7, im = 0\<rparr>]"
  using fft_length_and_degenerate [of "[1, 2, 3]" 7] by simp

text \<open>
  C7. Hermitian symmetry: for every input of length N and every k with 1 \<le> k < N, bin k of
  \<open>fft\<close> is present and bin N - k is its complex conjugate (same real part, negated imaginary
  part).
\<close>

theorem fft_hermitian_symmetry:
  assumes "1 \<le> k" and "k < length input"
  shows "fft input ! k \<noteq> None
       \<and> fft input ! (length input - k) = map_option conjugate (fft input ! k)"
proof -
  from assms have ne: "input \<noteq> []" by auto
  from assms have "length input - k < length input" by simp
  then show ?thesis
    using assms(2) by (simp add: fft_eq_dft [OF ne] dft_def dft_bin_mirror)
qed

theorem fft_hermitian_symmetry_witness:
  "fft [1, 2, 3, 4] ! 1 = Some \<lparr>re = - 2, im = 2\<rparr>
   \<and> fft [1, 2, 3, 4] ! 3 = Some \<lparr>re = - 2, im = - 2\<rparr>"
proof -
  have "fft [1, 2, 3, 4] ! 1 = Some \<lparr>re = - 2, im = 2\<rparr>"
    by (simp add: fft_eq_dft dft_def dft_bin_sum lessThan_nat_numeral quarter_turns)
  with fft_hermitian_symmetry [of 1 "[1, 2, 3, 4]"] show ?thesis
    by (simp add: conjugate_def numeral_3_eq_3)
qed

text \<open>
  C8. For a spectrum of M complex values, the frequencies of the records of
  \<open>getFrequencyComponents\<close> are exactly 1, 2, ..., floor(M / 2) - 1 in this order, one record
  for each. For every array and sample count, every record has a frequency k with
  1 \<le> k < floor(M / 2), the frequencies are strictly increasing, and the output is empty
  when M \<le> 3.
\<close>

theorem component_frequencies:
  "map frequency (getFrequencyComponents (map Some cs) n) = [1..<length cs div 2]
   \<and> (\<forall>r\<in>set (getFrequencyComponents fftData n).
         1 \<le> frequency r \<and> frequency r < length fftData div 2)
   \<and> sorted_wrt (<) (map frequency (getFrequencyComponents fftData n))
   \<and> (length fftData \<le> 3 \<longrightarrow> getFrequencyComponents fftData n = [])"
proof -
  have "map frequency (getFrequencyComponents (map Some cs) n) = [1..<length cs div 2]"
    by (simp add: getFrequencyComponents_full component_def Let_def comp_def)
  moreover have "\<forall>r\<in>set (getFrequencyComponents fftData n).
         1 \<le> frequency r \<and> frequency r < length fftData div 2"
  proof
    fix r assume "r \<in> set (getFrequencyComponents fftData n)"
    then obtain k bin where "1 \<le> k" "k < length fftData div 2"
      "r = component (length fftData) k bin"
      by (rule getFrequencyComponents_member)
    then show "1 \<le> frequency r \<and> frequency r < length fftData div 2"
      by (simp add: component_def Let_def)
  qed
  moreover have "sorted_wrt (<) (map frequency (getFrequencyComponents fftData n))"
    by (simp add: getFrequencyComponents_frequencies sorted_wrt_filter)
  moreover have "length fftData \<le> 3 \<longrightarrow> getFrequencyComponents fftData n = []"
  proof
    assume "length fftData \<le> 3"
    then have "length fftData div 2 \<le> 1" by simp
    then show "getFrequencyComponents fftData n = []"
      by (simp add: getFrequencyComponents_eq)
  qed
  ultimately show ?thesis by blast
qed

theorem component_frequencies_witness:
  "map frequency (getFrequencyComponents
      (map Some [\<lparr>re = 4, im = 0\<rparr>, \<lparr>re = 1, im = 1\<rparr>, \<lparr>re = 0, im = 2\<rparr>, \<lparr>re = 3, im = 0\<rparr>,
                 \<lparr>re = 0, im = - 2\<rparr>, \<lparr>re = 1, im = - 1\<rparr>]) 6) = [1, 2]
   \<and> getFrequencyComponents [Some \<lparr>re = 4, im = 0\<rparr>, Some \<lparr>re = 1, im = 1\<rparr>, Some \<lparr>re = 1, im = - 1\<rparr>] 6 = []"
  using component_frequencies
    [of "[\<lparr>re = 4, im = 0\<rparr>, \<lparr>re = 1, im = 1\<rparr>, \<lparr>re = 0, im = 2\<rparr>, \<lparr>re = 3, im = 0\<rparr>,
          \<lparr>re = 0, im = - 2\<rparr>, \<lparr>re = 1, im = - 1\<rparr>]" 6
        "[Some \<lparr>re = 4, im = 0\<rparr>, Some \<lparr>re = 1, im = 1\<rparr>, Some \<lparr>re = 1, im = - 1\<rparr>]"]
  by (simp add: upt_rec)

text \<open>
  C9. When the input length N is a power of two greater than 1, the recursive results for the
  even and the odd samples have length exactly N / 2 each, and for every k < N / 2 the reads
  \<^verbatim>\<open>even[k]\<close> and \<^verbatim>\<open>odd[k]\<close> are defined: the zero-valued fallback of the combine loop is never
  taken.
\<close>

theorem butterfly_fallback_unreachable:
  assumes "length input = 2 ^ m" and "0 < m" and "k < length input div 2"
  shows "length (fft (evenInput input)) = length input div 2
       \<and> length (fft (oddInput input)) = length input div 2
       \<and> bin_at (fft (evenInput input)) k \<noteq> None
       \<and> bin_at (fft (oddInput input)) k \<noteq> None"
proof -
  have "(2::nat) ^ 1 \<le> 2 ^ m"
    using assms(2) by (intro power_increasing) simp_all
  then have "2 \<le> length input" by (simp add: assms(1))
  then show ?thesis
    using power_of_two_radix2 [OF assms(1)] assms(3) by (rule combine_reads_defined)
qed

theorem butterfly_fallback_unreachable_witness:
  "length (fft (evenInput [1, 2, 3, 4])) = 2 \<and> length (fft (oddInput [1, 2, 3, 4])) = 2
   \<and> bin_at (fft (evenInput [1, 2, 3, 4])) 1 \<noteq> None
   \<and> bin_at (fft (oddInput [1, 2, 3, 4])) 1 \<noteq> None"
  using butterfly_fallback_unreachable [of "[1, 2, 3, 4]" 2 1] by simp

text \<open>
  C10. The output of \<open>getFrequencyComponents\<close> does not depend on its sample count argument:
  for every array and any two integers n1 and n2 the results are identical.
\<close>

theorem sampleCount_ignored:
  "getFrequencyComponents fftData n1 = getFrequencyComponents fftData n2"
  by (simp add: getFrequencyComponents_def)

end
